theory Spec2Isabelle
  imports Complex_Main "HOL-Library.Word"
begin

section \<open>Strings\<close>

text \<open>
  A JavaScript string is a sequence of UTF-16 code units; \<open>s.length\<close> counts code units,
  \<open>s[i]\<close> reads one, and \<open>===\<close> on strings compares the sequences.
\<close>

type_synonym jschar = "16 word"
type_synonym jsstring = "jschar list"

text \<open>
  The characters matched by \<open>\s\<close> in a regular expression, which are also the
  characters removed by \<open>String.prototype.trim\<close>: WhiteSpace and LineTerminator of
  the ECMAScript grammar.
\<close>

definition isWhiteSpace :: "jschar \<Rightarrow> bool" where
  "isWhiteSpace c \<longleftrightarrow>
     c = 0x9 \<or> c = 0xA \<or> c = 0xB \<or> c = 0xC \<or> c = 0xD \<or> c = 0x20 \<or> c = 0xA0 \<or>
     c = 0x1680 \<or> (0x2000 \<le> c \<and> c \<le> 0x200A) \<or> c = 0x2028 \<or> c = 0x2029 \<or>
     c = 0x202F \<or> c = 0x205F \<or> c = 0x3000 \<or> c = 0xFEFF"

definition space :: jschar where
  "space = 0x20"

section \<open>Numbers\<close>

text \<open>
  A JavaScript number is an IEEE 754 binary64 value. A finite one is a real number, and
  the embedding represents it by that real. Every arithmetic operation of the source
  computes the exact result and rounds it to the nearest binary64 value, ties to the
  even significand; comparisons are exact.

  \<open>pow2 e\<close> is \<open>2\<close> to the power \<open>e\<close>. \<open>exponent64 a\<close>, for \<open>a > 0\<close>, is the exponent
  of the binade of \<open>a\<close>: the \<open>e\<close> with \<open>2^e \<le> a < 2^(e+1)\<close>, and \<open>-1022\<close>, the exponent
  of the subnormal numbers, for every \<open>a\<close> below \<open>2^-1022\<close>. It is found by halving or
  doubling \<open>a\<close>; the numbers of steps, 1023 and 1022, are those of the binary64 range.
\<close>

definition pow2 :: "int \<Rightarrow> real" where
  "pow2 e = (if 0 \<le> e then 2 ^ nat e else 1 / 2 ^ nat (- e))"

function binade_up :: "nat \<Rightarrow> real \<Rightarrow> int" where
  "binade_up fuel a = (if fuel = 0 \<or> a < 2 then 0 else binade_up (fuel - 1) (a / 2) + 1)"
  by pat_completeness auto
termination
  by (relation "measure fst") auto

function binade_down :: "nat \<Rightarrow> real \<Rightarrow> int" where
  "binade_down fuel a = (if fuel = 0 \<or> 1 \<le> a then 0 else binade_down (fuel - 1) (a * 2) - 1)"
  by pat_completeness auto
termination
  by (relation "measure fst") auto

declare binade_up.simps [simp del] binade_down.simps [simp del]

definition exponent64 :: "real \<Rightarrow> int" where
  "exponent64 a = (if 1 \<le> a then binade_up 1023 a else binade_down 1022 a)"

text \<open>The nearest integer, a tie going to the even one.\<close>

definition round_half_even :: "real \<Rightarrow> int" where
  "round_half_even y =
     (if y - of_int \<lfloor>y\<rfloor> < 1 / 2 then \<lfloor>y\<rfloor>
      else if 1 / 2 < y - of_int \<lfloor>y\<rfloor> then \<lfloor>y\<rfloor> + 1
      else if even \<lfloor>y\<rfloor> then \<lfloor>y\<rfloor> else \<lfloor>y\<rfloor> + 1)"

text \<open>The nearest multiple of \<open>ulp\<close>.\<close>

definition round_to :: "real \<Rightarrow> real \<Rightarrow> real" where
  "round_to ulp a = of_int (round_half_even (a / ulp)) * ulp"

text \<open>
  Rounding to binary64: the significand has 53 bits, so in the binade of exponent \<open>e\<close>
  the binary64 values are the multiples of \<open>2^(e - 52)\<close>. A result of magnitude
  \<open>2^1024\<close> or more is \<open>Infinity\<close> in the source and is outside this embedding; no
  operation below reaches it on finite operands (the similarity stays within \<open>[0, 3]\<close>,
  and the semantic score is multiplied by \<open>0.8\<close> before \<open>0.2\<close> at most is added).
\<close>

definition round64 :: "real \<Rightarrow> real" where
  "round64 x =
     (if x = 0 then 0 else sgn x * round_to (pow2 (exponent64 \<bar>x\<bar> - 52)) \<bar>x\<bar>)"

text \<open>
  The operations \<open>+\<close>, \<open>-\<close>, \<open>*\<close> and \<open>/\<close> of the source. The divisors of the source are
  never zero where a division is reached. A decimal literal such as \<open>0.8\<close> denotes
  the binary64 value nearest to it, \<open>round64 0.8\<close>.
\<close>

definition fadd :: "real \<Rightarrow> real \<Rightarrow> real" where
  "fadd x y = round64 (x + y)"

definition fsub :: "real \<Rightarrow> real \<Rightarrow> real" where
  "fsub x y = round64 (x - y)"

definition fmul :: "real \<Rightarrow> real \<Rightarrow> real" where
  "fmul x y = round64 (x * y)"

definition fdiv :: "real \<Rightarrow> real \<Rightarrow> real" where
  "fdiv x y = round64 (x / y)"

section \<open>Jaro-Winkler similarity (\<open>jaroWinkler\<close> in api/compare.ts and server.js)\<close>

text \<open>\<open>const matchWindow = Math.floor(Math.max(m, n) / 2) - 1\<close>; it can be \<open>-1\<close>.\<close>

definition matchWindow :: "nat \<Rightarrow> nat \<Rightarrow> int" where
  "matchWindow m n = int (max m n) div 2 - 1"

text \<open>
  \<open>start = Math.max(0, i - matchWindow)\<close> and \<open>end = Math.min(i + matchWindow + 1, n)\<close>.
  The inner loop runs \<open>j\<close> from \<open>start\<close> (never negative) while \<open>j < end\<close>, so a
  negative \<open>end\<close> and \<open>end = 0\<close> both give no iteration.
\<close>

definition window_start :: "int \<Rightarrow> nat \<Rightarrow> nat" where
  "window_start w i = nat (max 0 (int i - w))"

definition window_end :: "int \<Rightarrow> nat \<Rightarrow> nat \<Rightarrow> nat" where
  "window_end w i n = nat (min (int i + w + 1) (int n))"

text \<open>
  The inner \<open>for (let j = start; j < end; j++)\<close> loop: the first \<open>j\<close> that is not
  yet claimed and carries the same character, or \<open>None\<close> when the loop runs out.
\<close>

function scan_window ::
  "jsstring \<Rightarrow> jsstring \<Rightarrow> bool list \<Rightarrow> nat \<Rightarrow> nat \<Rightarrow> nat \<Rightarrow> nat option" where
  "scan_window s1 s2 s2Matches i j e =
     (if j < e
      then (if s2Matches ! j \<or> s1 ! i \<noteq> s2 ! j
            then scan_window s1 s2 s2Matches i (Suc j) e
            else Some j)
      else None)"
  by pat_completeness auto
termination
  by (relation "measure (\<lambda>(s1, s2, f, i, j, e). e - j)") auto

declare scan_window.simps [simp del]

text \<open>One iteration of the outer matching loop, on \<open>(s1Matches, s2Matches, matches)\<close>.\<close>

definition match_step ::
  "jsstring \<Rightarrow> jsstring \<Rightarrow> int \<Rightarrow> bool list \<times> bool list \<times> nat \<Rightarrow> nat
     \<Rightarrow> bool list \<times> bool list \<times> nat" where
  "match_step s1 s2 w st i =
     (case st of (s1Matches, s2Matches, matches) \<Rightarrow>
        (case scan_window s1 s2 s2Matches i (window_start w i) (window_end w i (length s2)) of
           None \<Rightarrow> (s1Matches, s2Matches, matches)
         | Some j \<Rightarrow> (s1Matches[i := True], s2Matches[j := True], Suc matches)))"

definition match_pass :: "jsstring \<Rightarrow> jsstring \<Rightarrow> bool list \<times> bool list \<times> nat" where
  "match_pass s1 s2 =
     foldl (match_step s1 s2 (matchWindow (length s1) (length s2)))
       (replicate (length s1) False, replicate (length s2) False, 0)
       [0..<length s1]"

text \<open>
  \<open>while (!s2Matches[k]) k++\<close>. Reading past the end of the array gives
  \<open>undefined\<close>, which is falsy, so beyond the array the loop never stops: the result
  \<open>None\<close> stands for a loop that does not return.
\<close>

partial_function (option) skip_unmatched :: "bool list \<Rightarrow> nat \<Rightarrow> nat option" where
  "skip_unmatched s2Matches k =
     (if k < length s2Matches \<and> s2Matches ! k then Some k
      else skip_unmatched s2Matches (Suc k))"

declare skip_unmatched.simps [code]

text \<open>
  The transposition pass over the positions \<open>is\<close> of the first string, on the loop
  state \<open>(k, transpositions)\<close>.
\<close>

fun trans_loop ::
  "jsstring \<Rightarrow> jsstring \<Rightarrow> bool list \<Rightarrow> bool list \<Rightarrow> nat list \<Rightarrow> nat \<times> nat
     \<Rightarrow> (nat \<times> nat) option" where
  "trans_loop s1 s2 s1Matches s2Matches [] st = Some st"
| "trans_loop s1 s2 s1Matches s2Matches (i # is) (k, transpositions) =
     (if \<not> s1Matches ! i then trans_loop s1 s2 s1Matches s2Matches is (k, transpositions)
      else (case skip_unmatched s2Matches k of
              None \<Rightarrow> None
            | Some k' \<Rightarrow>
                trans_loop s1 s2 s1Matches s2Matches is
                  (Suc k', if s1 ! i \<noteq> s2 ! k' then Suc transpositions else transpositions)))"

definition trans_pass ::
  "jsstring \<Rightarrow> jsstring \<Rightarrow> bool list \<Rightarrow> bool list \<Rightarrow> (nat \<times> nat) option" where
  "trans_pass s1 s2 s1Matches s2Matches =
     trans_loop s1 s2 s1Matches s2Matches [0..<length s1] (0, 0)"

text \<open>The common-prefix loop, at most \<open>Math.min(m, n, 4)\<close> iterations, with its \<open>break\<close>.\<close>

function prefix_loop :: "jsstring \<Rightarrow> jsstring \<Rightarrow> nat \<Rightarrow> nat \<Rightarrow> nat" where
  "prefix_loop s1 s2 i prefix =
     (if i < min (min (length s1) (length s2)) 4
      then (if s1 ! i = s2 ! i then prefix_loop s1 s2 (Suc i) (Suc prefix) else prefix)
      else prefix)"
  by pat_completeness auto
termination
  by (relation "measure (\<lambda>(s1, s2, i, p). min (min (length s1) (length s2)) 4 - i)") auto

declare prefix_loop.simps [simp del]

definition jaro :: "nat \<Rightarrow> nat \<Rightarrow> nat \<Rightarrow> nat \<Rightarrow> real" where
  "jaro m n matches transpositions =
     (real matches / real m + real matches / real n
        + (real matches - real transpositions / 2) / real matches) / 3"

definition jaroWinkler :: "jsstring \<Rightarrow> jsstring \<Rightarrow> real option" where
  "jaroWinkler s1 s2 =
     (let m = length s1; n = length s2 in
      if m = 0 \<and> n = 0 then Some 1.0
      else if m = 0 \<or> n = 0 then Some 0.0
      else
        (case match_pass s1 s2 of (s1Matches, s2Matches, matches) \<Rightarrow>
           if matches = 0 then Some 0.0
           else
             (case trans_pass s1 s2 s1Matches s2Matches of
                None \<Rightarrow> None
              | Some (k, transpositions) \<Rightarrow>
                  (let j = jaro m n matches transpositions;
                       prefix = prefix_loop s1 s2 0 0
                   in Some (j + real prefix * 0.1 * (1 - j))))))"

text \<open>
  \<open>jaro\<close> and \<open>jaroWinkler\<close> above give the value of the source's formulas in exact
  arithmetic. \<open>jaro64\<close> and \<open>jaroWinkler64\<close> are the same lines with every operation
  rounded as the source rounds it: the two passes and the prefix loop, which count in
  small integers, are shared, and \<open>jaroWinkler64\<close> is the number that the function
  returns to the handler. The counters are integers far below \<open>2^53\<close> and are binary64
  values as they stand.
\<close>

definition jaro64 :: "nat \<Rightarrow> nat \<Rightarrow> nat \<Rightarrow> nat \<Rightarrow> real" where
  "jaro64 m n matches transpositions =
     fdiv (fadd (fadd (fdiv (real matches) (real m)) (fdiv (real matches) (real n)))
                (fdiv (fsub (real matches) (fdiv (real transpositions) 2)) (real matches)))
          3"

definition winkler64 :: "real \<Rightarrow> nat \<Rightarrow> real" where
  "winkler64 j prefix = fadd j (fmul (fmul (real prefix) (round64 0.1)) (fsub 1 j))"

definition jaroWinkler64 :: "jsstring \<Rightarrow> jsstring \<Rightarrow> real option" where
  "jaroWinkler64 s1 s2 =
     (let m = length s1; n = length s2 in
      if m = 0 \<and> n = 0 then Some 1.0
      else if m = 0 \<or> n = 0 then Some 0.0
      else
        (case match_pass s1 s2 of (s1Matches, s2Matches, matches) \<Rightarrow>
           if matches = 0 then Some 0.0
           else
             (case trans_pass s1 s2 s1Matches s2Matches of
                None \<Rightarrow> None
              | Some (k, transpositions) \<Rightarrow>
                  Some (winkler64 (jaro64 m n matches transpositions)
                                  (prefix_loop s1 s2 0 0)))))"

section \<open>Normalisation (\<open>normalize\<close>)\<close>

text \<open>\<open>text.trim()\<close>: whitespace removed from both ends.\<close>

definition trim :: "jsstring \<Rightarrow> jsstring" where
  "trim s = rev (dropWhile isWhiteSpace (rev (dropWhile isWhiteSpace s)))"

text \<open>
  \<open>.replace(/\s+/g, ' ')\<close>: scanning from the left, each greedy match of one or more
  whitespace characters is replaced by one space.
\<close>

function replace_ws :: "jsstring \<Rightarrow> jsstring" where
  "replace_ws [] = []"
| "replace_ws (c # cs) =
     (if isWhiteSpace c then space # replace_ws (dropWhile isWhiteSpace cs)
      else c # replace_ws cs)"
  by pat_completeness auto
termination
  by (relation "measure length") (auto simp: le_imp_less_Suc length_dropWhile_le)

definition normalize :: "jsstring \<Rightarrow> jsstring" where
  "normalize text = replace_ws (trim text)"

section \<open>The request handler\<close>

text \<open>
  The collaborators of the handler that are not code of this repository:
  \<open>String.prototype.toLowerCase\<close>, the loading of the embedding pipeline (which may
  fail), and the embedding model followed by \<open>cos_sim\<close> and \<open>Number\<close> (\<open>None\<close> when
  any of them throws).
\<close>

record env =
  toLowerCase :: "jsstring \<Rightarrow> jsstring"
  pipeline_loads :: bool
  embed_cos_sim :: "jsstring \<Rightarrow> jsstring \<Rightarrow> real option"

datatype provider_call = LoadPipeline | Embed jsstring jsstring

text \<open>
  The module state: the cached \<open>extractor\<close> (loaded or not), and a log of the calls made
  to the embedding provider.
\<close>

record server =
  extractor :: bool
  provider_calls :: "provider_call list"

datatype http_method = OPTIONS | POST | OtherMethod

text \<open>
  The parsed body of a request, as far as the handler reads it. A field is \<open>None\<close> when
  absent; the fields are strings and a finite number when present.
\<close>

record body =
  userAnswer :: "jsstring option"
  correctAnswer :: "jsstring option"
  body_threshold :: "real option"

text \<open>
  The request: its method and its body. \<open>req.body\<close> is \<open>undefined\<close> or \<open>null\<close> (here
  \<open>None\<close>) when the request carries no body; otherwise its fields can be read.
\<close>

record request =
  req_method :: http_method
  req_body :: "body option"

record scores =
  exact :: "real option"
  semantic :: real
  jaroWinklerScore :: real
  combined :: real

text \<open>The JSON object of a 200 answer; a field that the object lacks is \<open>None\<close>.\<close>

record decision =
  isCorrect :: bool
  confidence :: real
  scores :: scores
  threshold :: "real option"

datatype response =
    Json200 decision
  | End200
  | Error400
  | Error405
  | Error500
  | NoResponse

text \<open>\<open>!x\<close> on a body field: absent, or the empty string.\<close>

fun falsy :: "jsstring option \<Rightarrow> bool" where
  "falsy None = True"
| "falsy (Some s) = (s = [])"

definition getExtractor :: "env \<Rightarrow> server \<Rightarrow> bool \<times> server" where
  "getExtractor e st =
     (if \<not> extractor st
      then (let st' = st\<lparr>provider_calls := provider_calls st @ [LoadPipeline]\<rparr>
            in if pipeline_loads e then (True, st'\<lparr>extractor := True\<rparr>) else (False, st'))
      else (True, st))"

definition call_model :: "env \<Rightarrow> jsstring \<Rightarrow> jsstring \<Rightarrow> server \<Rightarrow> real option \<times> server" where
  "call_model e a b st =
     (embed_cos_sim e a b, st\<lparr>provider_calls := provider_calls st @ [Embed a b]\<rparr>)"

text \<open>
  The \<open>try\<close> block after the destructuring of \<open>req.body\<close>, the same in api/compare.ts
  and in the \<open>/api/compare\<close> route of server.js, on the three values read from the body.
\<close>

definition compare ::
  "env \<Rightarrow> jsstring option \<Rightarrow> jsstring option \<Rightarrow> real option \<Rightarrow> server
     \<Rightarrow> response \<times> server" where
  "compare e ua ca th st =
     (let thr = (case th of None \<Rightarrow> 0.75 | Some t \<Rightarrow> t) in
      if falsy ua \<or> falsy ca then (Error400, st)
      else
        (let normalizedUser = normalize (the ua);
             normalizedCorrect = normalize (the ca)
         in
         if toLowerCase e normalizedUser = toLowerCase e normalizedCorrect
         then (Json200 \<lparr>isCorrect = True, confidence = 1.0,
                        scores = \<lparr>exact = Some 1.0, semantic = 1.0,
                                  jaroWinklerScore = 1.0, combined = 1.0\<rparr>,
                        threshold = None\<rparr>, st)
         else
           (case getExtractor e st of
              (False, st1) \<Rightarrow> (Error500, st1)
            | (True, st1) \<Rightarrow>
                (case call_model e normalizedUser normalizedCorrect st1 of
                   (None, st2) \<Rightarrow> (Error500, st2)
                 | (Some semanticScore, st2) \<Rightarrow>
                     (case jaroWinkler64 (toLowerCase e normalizedUser)
                                         (toLowerCase e normalizedCorrect) of
                        None \<Rightarrow> (NoResponse, st2)
                      | Some jaroScore \<Rightarrow>
                          (let combinedScore =
                                 fadd (fmul semanticScore (round64 0.8))
                                      (fmul jaroScore (round64 0.2));
                               isCorrect = (combinedScore \<ge> thr)
                           in (Json200 \<lparr>isCorrect = isCorrect, confidence = combinedScore,
                                         scores = \<lparr>exact = None, semantic = semanticScore,
                                                   jaroWinklerScore = jaroScore,
                                                   combined = combinedScore\<rparr>,
                                         threshold = Some thr\<rparr>, st2)))))))"

text \<open>
  \<open>handler\<close> of api/compare.ts: the method checks, then the \<open>try\<close> block. Its first
  statement destructures \<open>req.body\<close>; on a request without body this throws, and the
  \<open>catch\<close> answers with status 500.
\<close>

definition handler :: "env \<Rightarrow> request \<Rightarrow> server \<Rightarrow> response \<times> server" where
  "handler e req st =
     (if req_method req = OPTIONS then (End200, st)
      else if req_method req \<noteq> POST then (Error405, st)
      else
        (case req_body req of
           None \<Rightarrow> (Error500, st)
         | Some b \<Rightarrow> compare e (userAnswer b) (correctAnswer b) (body_threshold b) st))"

section \<open>Concrete collaborators, for evaluating the handler\<close>

text \<open>Lower-casing of the ASCII letters, which is what \<open>toLowerCase\<close> does on ASCII text.\<close>

definition ascii_lower :: "jsstring \<Rightarrow> jsstring" where
  "ascii_lower s = map (\<lambda>c. if 0x41 \<le> c \<and> c \<le> 0x5A then c + 0x20 else c) s"

text \<open>A provider that loads and answers every pair with the same semantic score.\<close>

definition stub_env :: "real \<Rightarrow> env" where
  "stub_env sem =
     \<lparr>toLowerCase = ascii_lower, pipeline_loads = True, embed_cos_sim = (\<lambda>a b. Some sem)\<rparr>"

definition cold_server :: server where
  "cold_server = \<lparr>extractor = False, provider_calls = []\<rparr>"

section \<open>Notions used in the proofs\<close>

text \<open>
  Position \<open>i\<close> of the first string and position \<open>j\<close> of the second can be matched:
  both exist, they carry the same character, and \<open>j\<close> lies in the range that the inner
  loop scans for \<open>i\<close>.
\<close>

definition compat :: "jsstring \<Rightarrow> jsstring \<Rightarrow> nat \<Rightarrow> nat \<Rightarrow> bool" where
  "compat s1 s2 i j \<longleftrightarrow>
     i < length s1 \<and> j < length s2 \<and> s1 ! i = s2 ! j \<and>
     window_start (matchWindow (length s1) (length s2)) i \<le> j \<and>
     j < window_end (matchWindow (length s1) (length s2)) i (length s2)"

text \<open>
  The set of pairs that the matching pass builds is characterised without reference to
  the loop: its pairs can be matched, no position occurs in two pairs, and for every
  pair that can be matched, one of its two positions is taken by a pair that is no
  later in the other position. The four conditions read the same from either string.
\<close>

definition greedy_matching :: "jsstring \<Rightarrow> jsstring \<Rightarrow> (nat \<times> nat) set \<Rightarrow> bool" where
  "greedy_matching s1 s2 M \<longleftrightarrow>
     (\<forall>i j. (i, j) \<in> M \<longrightarrow> compat s1 s2 i j) \<and>
     (\<forall>i j j'. (i, j) \<in> M \<and> (i, j') \<in> M \<longrightarrow> j = j') \<and>
     (\<forall>i i' j. (i, j) \<in> M \<and> (i', j) \<in> M \<longrightarrow> i = i') \<and>
     (\<forall>i j. compat s1 s2 i j \<longrightarrow> (\<exists>j'\<le>j. (i, j') \<in> M) \<or> (\<exists>i'\<le>i. (i', j) \<in> M))"

text \<open>The loop invariant of the matching pass, before iteration \<open>i0\<close>.\<close>

definition match_inv :: "jsstring \<Rightarrow> jsstring \<Rightarrow> nat \<Rightarrow> (nat \<times> nat) set \<Rightarrow> bool" where
  "match_inv s1 s2 i0 M \<longleftrightarrow>
     finite M \<and>
     (\<forall>i j. (i, j) \<in> M \<longrightarrow> compat s1 s2 i j \<and> i < i0) \<and>
     (\<forall>i j j'. (i, j) \<in> M \<and> (i, j') \<in> M \<longrightarrow> j = j') \<and>
     (\<forall>i i' j. (i, j) \<in> M \<and> (i', j) \<in> M \<longrightarrow> i = i') \<and>
     (\<forall>i j. compat s1 s2 i j \<and> i < i0 \<longrightarrow>
        (\<exists>j'\<le>j. (i, j') \<in> M) \<or> (\<exists>i'\<le>i. (i', j) \<in> M))"

text \<open>A flag array of length \<open>k\<close> that marks the positions of a set.\<close>

definition flags :: "nat \<Rightarrow> nat set \<Rightarrow> bool list" where
  "flags k S = map (\<lambda>i. i \<in> S) [0..<k]"

text \<open>
  The flagged positions below \<open>k\<close>, in increasing order, and the number of position
  pairs, taken in lockstep, that carry different characters.
\<close>

definition matched :: "bool list \<Rightarrow> nat \<Rightarrow> nat list" where
  "matched f k = filter (\<lambda>i. f ! i) [0..<k]"

definition mismatches :: "jsstring \<Rightarrow> jsstring \<Rightarrow> nat list \<Rightarrow> nat list \<Rightarrow> nat" where
  "mismatches s1 s2 ps qs = length (filter (\<lambda>(p, q). s1 ! p \<noteq> s2 ! q) (zip ps qs))"

text \<open>
  The specification of \<open>normalize\<close>, stated from its words and not from the code. The
  text is cut into its maximal runs of whitespace characters and of other characters.
\<close>

function runs :: "jsstring \<Rightarrow> jsstring list" where
  "runs [] = []"
| "runs (c # cs) =
     (c # takeWhile (\<lambda>d. isWhiteSpace d = isWhiteSpace c) cs)
       # runs (dropWhile (\<lambda>d. isWhiteSpace d = isWhiteSpace c) cs)"
  by pat_completeness auto
termination
  by (relation "measure length") (auto simp: le_imp_less_Suc length_dropWhile_le)

text \<open>Leading and trailing whitespace removed: a first or a last run of whitespace is dropped.\<close>

definition drop_leading_ws :: "jsstring list \<Rightarrow> jsstring list" where
  "drop_leading_ws rs =
     (case rs of [] \<Rightarrow> [] | r # rs' \<Rightarrow> if isWhiteSpace (hd r) then rs' else rs)"

definition drop_trailing_ws :: "jsstring list \<Rightarrow> jsstring list" where
  "drop_trailing_ws rs = (if rs \<noteq> [] \<and> isWhiteSpace (hd (last rs)) then butlast rs else rs)"

text \<open>Every remaining run of whitespace is replaced by a single space character.\<close>

definition squash :: "jsstring \<Rightarrow> jsstring" where
  "squash r = (if isWhiteSpace (hd r) then [space] else r)"

definition normalize_spec :: "jsstring \<Rightarrow> jsstring" where
  "normalize_spec text = concat (map squash (drop_trailing_ws (drop_leading_ws (runs text))))"

section \<open>Evaluation of the similarity on concrete strings\<close>

lemmas jw_eval =
  jaroWinkler_def match_pass_def match_step_def matchWindow_def window_start_def
  window_end_def scan_window.simps trans_pass_def skip_unmatched.simps jaro_def
  prefix_loop.simps

lemmas round64_eval =
  round64_def round_to_def exponent64_def pow2_def round_half_even_def binade_up.simps
  binade_down.simps

lemmas jw64_eval =
  jaroWinkler64_def match_pass_def match_step_def matchWindow_def window_start_def
  window_end_def scan_window.simps trans_pass_def skip_unmatched.simps
  prefix_loop.simps

lemmas handler_eval =
  handler_def compare_def stub_env_def cold_server_def ascii_lower_def normalize_def
  trim_def isWhiteSpace_def space_def getExtractor_def call_model_def

section \<open>The rounded arithmetic on concrete values\<close>

text \<open>
  Rounding at a tie, towards the even significand on either side; just below a power of
  two; and two values that are not binary64 values. Then the similarity of \<open>"abc"\<close> and
  \<open>"abd"\<close>, two matches, no transposition and a common prefix of two, which the source
  prints as \<open>0.8222222222222222\<close>.
\<close>

lemma round64_examples:
  "round64 9007199254740993 = 9007199254740992"
  "round64 9007199254740995 = 9007199254740996"
  "round64 (2 - 1 / 2 ^ 54) = 2"
  "round64 (1 / 3) = 6004799503160661 / 18014398509481984"
  "round64 (- (2 / 3)) = - (6004799503160661 / 9007199254740992)"
  by (simp_all add: round64_eval)

lemma jaro64_example: "jaro64 3 3 2 0 = 875699927544263 / 1125899906842624"
  by (simp add: jaro64_def fadd_def fsub_def fdiv_def round64_eval)

lemma winkler64_example:
  "winkler64 (875699927544263 / 1125899906842624) 2 = 3702959693615741 / 4503599627370496"
  by (simp add: winkler64_def fadd_def fsub_def fmul_def round64_eval)

lemma jaroWinkler64_example:
  "jaroWinkler64 [0x61, 0x62, 0x63] [0x61, 0x62, 0x64] = Some (3702959693615741 / 4503599627370496)"
proof -
  have "jaroWinkler64 [0x61, 0x62, 0x63] [0x61, 0x62, 0x64] = Some (winkler64 (jaro64 3 3 2 0) 2)"
    by (simp add: jw64_eval upt_rec numeral_3_eq_3 numeral_2_eq_2)
  then show ?thesis
    by (simp only: jaro64_example winkler64_example)
qed

section \<open>The matching pass\<close>

subsection \<open>The scan range\<close>

lemma in_window:
  "window_start w i \<le> j \<and> j < window_end w i n \<longleftrightarrow>
     j < n \<and> int i - w \<le> int j \<and> int j \<le> int i + w"
  unfolding window_start_def window_end_def by arith

lemma compat_iff:
  "compat s1 s2 i j \<longleftrightarrow>
     i < length s1 \<and> j < length s2 \<and> s1 ! i = s2 ! j \<and>
     int i - matchWindow (length s1) (length s2) \<le> int j \<and>
     int j \<le> int i + matchWindow (length s1) (length s2)"
  unfolding compat_def using in_window [of "matchWindow (length s1) (length s2)" i j "length s2"]
  by blast

lemma matchWindow_commute: "matchWindow m n = matchWindow n m"
  by (simp add: matchWindow_def max.commute)

lemma compat_sym: "compat s1 s2 i j = compat s2 s1 j i"
  unfolding compat_iff matchWindow_commute [of "length s2"] by auto

subsection \<open>The greedy matching is unique and symmetric\<close>

lemma greedy_matching_converse:
  "greedy_matching s1 s2 M \<Longrightarrow> greedy_matching s2 s1 (M\<inverse>)"
  unfolding greedy_matching_def
  by (simp add: compat_sym [of s2 s1]) blast

lemma greedy_matching_subset:
  assumes M: "greedy_matching s1 s2 M" and M': "greedy_matching s1 s2 M'"
  shows "(i, j) \<in> M \<Longrightarrow> (i, j) \<in> M'"
proof (induction "i + j" arbitrary: i j rule: less_induct)
  case less
  have c: "compat s1 s2 i j"
    using M less.prems by (simp add: greedy_matching_def)
  from M' c consider j' where "j' \<le> j" "(i, j') \<in> M'" | i' where "i' \<le> i" "(i', j) \<in> M'"
    unfolding greedy_matching_def by blast
  then show ?case
  proof cases
    case 1
    show ?thesis
    proof (cases "j' = j")
      case True
      with 1 show ?thesis by simp
    next
      case False
      with 1 have lt: "j' < j" by simp
      have "compat s1 s2 i j'"
        using M' 1 by (simp add: greedy_matching_def)
      with M consider j'' where "j'' \<le> j'" "(i, j'') \<in> M" | i'' where "i'' \<le> i" "(i'', j') \<in> M"
        unfolding greedy_matching_def by blast
      then show ?thesis
      proof cases
        case 1
        with M less.prems have "j'' = j" unfolding greedy_matching_def by blast
        with 1 lt show ?thesis by simp
      next
        case 2
        have "i'' \<noteq> i"
        proof
          assume "i'' = i"
          with 2 M less.prems have "j' = j" unfolding greedy_matching_def by blast
          with lt show False by simp
        qed
        with 2 have "i'' + j' < i + j" using lt by simp
        from less.hyps [OF this 2(2)] have "(i'', j') \<in> M'" .
        with \<open>(i, j') \<in> M'\<close> M' have "i'' = i" unfolding greedy_matching_def by blast
        with \<open>i'' \<noteq> i\<close> show ?thesis by simp
      qed
    qed
  next
    case 2
    show ?thesis
    proof (cases "i' = i")
      case True
      with 2 show ?thesis by simp
    next
      case False
      with 2 have lt: "i' < i" by simp
      have "compat s1 s2 i' j"
        using M' 2 by (simp add: greedy_matching_def)
      with M consider j'' where "j'' \<le> j" "(i', j'') \<in> M" | i'' where "i'' \<le> i'" "(i'', j) \<in> M"
        unfolding greedy_matching_def by blast
      then show ?thesis
      proof cases
        case 2
        with M less.prems have "i'' = i" unfolding greedy_matching_def by blast
        with 2 lt show ?thesis by simp
      next
        case 1
        have "j'' \<noteq> j"
        proof
          assume "j'' = j"
          with 1 M less.prems have "i' = i" unfolding greedy_matching_def by blast
          with lt show False by simp
        qed
        with 1 have "i' + j'' < i + j" using lt by simp
        from less.hyps [OF this 1(2)] have "(i', j'') \<in> M'" .
        with \<open>(i', j) \<in> M'\<close> M' have "j'' = j" unfolding greedy_matching_def by blast
        with \<open>j'' \<noteq> j\<close> show ?thesis by simp
      qed
    qed
  qed
qed

lemma greedy_matching_unique:
  "greedy_matching s1 s2 M \<Longrightarrow> greedy_matching s1 s2 M' \<Longrightarrow> M = M'"
  using greedy_matching_subset [of s1 s2 M M'] greedy_matching_subset [of s1 s2 M' M]
  by auto

subsection \<open>The inner loop\<close>

lemma scan_window_None:
  "scan_window s1 s2 f i a e = None \<Longrightarrow> a \<le> j \<Longrightarrow> j < e \<Longrightarrow> f ! j \<or> s1 ! i \<noteq> s2 ! j"
proof (induction s1 s2 f i a e rule: scan_window.induct)
  case (1 s1 s2 f i a e)
  from "1.prems" have ae: "a < e" by simp
  from "1.prems"(1) ae have step: "f ! a \<or> s1 ! i \<noteq> s2 ! a"
    and rest: "scan_window s1 s2 f i (Suc a) e = None"
    by (simp_all add: scan_window.simps [of s1 s2 f i a e] split: if_splits)
  show ?case
  proof (cases "j = a")
    case True
    with step show ?thesis by simp
  next
    case False
    with "1.prems" have "Suc a \<le> j" by simp
    from "1.IH" [OF ae step rest this "1.prems"(3)] show ?thesis .
  qed
qed

lemma scan_window_Some:
  "scan_window s1 s2 f i a e = Some j0 \<Longrightarrow>
     a \<le> j0 \<and> j0 < e \<and> \<not> f ! j0 \<and> s1 ! i = s2 ! j0 \<and>
     (\<forall>j. a \<le> j \<and> j < j0 \<longrightarrow> f ! j \<or> s1 ! i \<noteq> s2 ! j)"
proof (induction s1 s2 f i a e rule: scan_window.induct)
  case (1 s1 s2 f i a e)
  from "1.prems" have ae: "a < e"
    by (simp add: scan_window.simps [of s1 s2 f i a e] split: if_splits)
  show ?case
  proof (cases "f ! a \<or> s1 ! i \<noteq> s2 ! a")
    case True
    with "1.prems" ae have "scan_window s1 s2 f i (Suc a) e = Some j0"
      by (simp add: scan_window.simps [of s1 s2 f i a e])
    from "1.IH" [OF ae True this]
    have a: "Suc a \<le> j0" and b: "j0 < e" and c: "\<not> f ! j0" and d: "s1 ! i = s2 ! j0"
      and r: "\<And>j. Suc a \<le> j \<Longrightarrow> j < j0 \<Longrightarrow> f ! j \<or> s1 ! i \<noteq> s2 ! j"
      by blast+
    have "f ! j \<or> s1 ! i \<noteq> s2 ! j" if "a \<le> j" "j < j0" for j
    proof (cases "j = a")
      case True
      with \<open>f ! a \<or> s1 ! i \<noteq> s2 ! a\<close> show ?thesis by simp
    next
      case False
      with that have "Suc a \<le> j" by simp
      from r [OF this that(2)] show ?thesis .
    qed
    with a b c d show ?thesis by simp
  next
    case False
    with "1.prems" ae have "j0 = a"
      by (simp add: scan_window.simps [of s1 s2 f i a e])
    with False ae show ?thesis by auto
  qed
qed

subsection \<open>The outer loop\<close>

lemma length_flags [simp]: "length (flags k S) = k"
  by (simp add: flags_def)

lemma nth_flags [simp]: "i < k \<Longrightarrow> flags k S ! i = (i \<in> S)"
  by (simp add: flags_def)

lemma flags_update: "(flags k S)[i := True] = flags k (insert i S)"
proof (rule nth_equalityI)
  fix a assume "a < length ((flags k S)[i := True])"
  then show "(flags k S)[i := True] ! a = flags k (insert i S) ! a"
    by (cases "a = i") simp_all
qed simp

lemma flags_empty: "replicate k False = flags k {}"
  by (rule nth_equalityI) auto

lemma match_inv_0: "match_inv s1 s2 0 {}"
  by (simp add: match_inv_def)

lemma match_step_inv:
  assumes inv: "match_inv s1 s2 i0 M" and i0: "i0 < length s1"
  shows "\<exists>M'. match_inv s1 s2 (Suc i0) M' \<and>
           match_step s1 s2 (matchWindow (length s1) (length s2))
             (flags (length s1) (Domain M), flags (length s2) (Range M), card M) i0 =
           (flags (length s1) (Domain M'), flags (length s2) (Range M'), card M')"
proof -
  let ?w = "matchWindow (length s1) (length s2)"
  let ?f2 = "flags (length s2) (Range M)"
  let ?a = "window_start ?w i0" and ?e = "window_end ?w i0 (length s2)"
  have e_le: "?e \<le> length s2"
    by (simp add: window_end_def)
  show ?thesis
  proof (cases "scan_window s1 s2 ?f2 i0 ?a ?e")
    case None
    have "match_inv s1 s2 (Suc i0) M"
      unfolding match_inv_def
    proof (intro conjI allI impI)
      fix i j assume "compat s1 s2 i j \<and> i < Suc i0"
      then have c: "compat s1 s2 i j" and "i < Suc i0" by simp_all
      show "(\<exists>j'\<le>j. (i, j') \<in> M) \<or> (\<exists>i'\<le>i. (i', j) \<in> M)"
      proof (cases "i = i0")
        case False
        with \<open>i < Suc i0\<close> c inv show ?thesis by (simp add: match_inv_def)
      next
        case True
        with c have aj: "?a \<le> j" and je: "j < ?e" and ch: "s1 ! i0 = s2 ! j" and jn: "j < length s2"
          by (simp_all add: compat_def)
        from scan_window_None [OF None aj je] ch jn have "j \<in> Range M" by simp
        then obtain i' where i': "(i', j) \<in> M" by blast
        with inv have "i' < i0" by (simp add: match_inv_def)
        with i' True show ?thesis by auto
      qed
    next
      show "finite M" using inv by (simp add: match_inv_def)
    next
      fix i j assume "(i, j) \<in> M"
      with inv show "compat s1 s2 i j" by (simp add: match_inv_def)
    next
      fix i j assume "(i, j) \<in> M"
      with inv show "i < Suc i0" by (auto simp: match_inv_def less_Suc_eq)
    next
      fix i j j' assume "(i, j) \<in> M \<and> (i, j') \<in> M"
      with inv show "j = j'" unfolding match_inv_def by blast
    next
      fix i i' j assume "(i, j) \<in> M \<and> (i', j) \<in> M"
      with inv show "i = i'" unfolding match_inv_def by blast
    qed
    with None show ?thesis
      by (auto simp: match_step_def)
  next
    case (Some j0)
    from scan_window_Some [OF Some]
    have aj0: "?a \<le> j0" and j0e: "j0 < ?e" and nf: "\<not> ?f2 ! j0" and ch0: "s1 ! i0 = s2 ! j0"
      and skipped: "\<And>j. ?a \<le> j \<Longrightarrow> j < j0 \<Longrightarrow> ?f2 ! j \<or> s1 ! i0 \<noteq> s2 ! j"
      by blast+
    from j0e e_le have j0n: "j0 < length s2" by simp
    with nf have j0R: "j0 \<notin> Range M" by simp
    have i0D: "i0 \<notin> Domain M"
      using inv by (auto simp: match_inv_def)
    have c0: "compat s1 s2 i0 j0"
      using i0 j0n ch0 aj0 j0e by (simp add: compat_def)
    let ?M = "insert (i0, j0) M"
    have notin: "(i0, j0) \<notin> M"
      using i0D by blast
    have "match_inv s1 s2 (Suc i0) ?M"
      unfolding match_inv_def
    proof (intro conjI allI impI)
      show "finite ?M" using inv by (simp add: match_inv_def)
    next
      fix i j assume "(i, j) \<in> ?M"
      with inv c0 show "compat s1 s2 i j" by (auto simp: match_inv_def)
    next
      fix i j assume "(i, j) \<in> ?M"
      with inv show "i < Suc i0" by (auto simp: match_inv_def less_Suc_eq)
    next
      fix i j j' assume "(i, j) \<in> ?M \<and> (i, j') \<in> ?M"
      with inv i0D show "j = j'" unfolding match_inv_def by blast
    next
      fix i i' j assume "(i, j) \<in> ?M \<and> (i', j) \<in> ?M"
      with inv j0R show "i = i'" unfolding match_inv_def by blast
    next
      fix i j assume "compat s1 s2 i j \<and> i < Suc i0"
      then have c: "compat s1 s2 i j" and "i < Suc i0" by simp_all
      show "(\<exists>j'\<le>j. (i, j') \<in> ?M) \<or> (\<exists>i'\<le>i. (i', j) \<in> ?M)"
      proof (cases "i = i0")
        case False
        with \<open>i < Suc i0\<close> c inv have "(\<exists>j'\<le>j. (i, j') \<in> M) \<or> (\<exists>i'\<le>i. (i', j) \<in> M)"
          by (simp add: match_inv_def)
        then show ?thesis by blast
      next
        case True
        with c have aj: "?a \<le> j" and je: "j < ?e" and ch: "s1 ! i0 = s2 ! j" and jn: "j < length s2"
          by (simp_all add: compat_def)
        show ?thesis
        proof (cases "j0 \<le> j")
          case True
          with \<open>i = i0\<close> show ?thesis by blast
        next
          case False
          then have "j < j0" by simp
          from skipped [OF aj this] ch jn have "j \<in> Range M" by simp
          then obtain i' where i': "(i', j) \<in> M" by blast
          with inv have "i' < i0" by (simp add: match_inv_def)
          with i' True show ?thesis by auto
        qed
      qed
    qed
    moreover have "card ?M = Suc (card M)"
      using inv notin by (simp add: match_inv_def)
    ultimately show ?thesis
      using Some by (auto simp: match_step_def flags_update)
  qed
qed

lemma match_prefix:
  "i0 \<le> length s1 \<Longrightarrow>
     \<exists>M. match_inv s1 s2 i0 M \<and>
       foldl (match_step s1 s2 (matchWindow (length s1) (length s2)))
         (replicate (length s1) False, replicate (length s2) False, 0) [0..<i0] =
       (flags (length s1) (Domain M), flags (length s2) (Range M), card M)"
proof (induction i0)
  case 0
  show ?case
    using match_inv_0 [of s1 s2] by (intro exI [of _ "{}"]) (simp add: flags_empty)
next
  case (Suc i0)
  then obtain M where M: "match_inv s1 s2 i0 M"
    and f: "foldl (match_step s1 s2 (matchWindow (length s1) (length s2)))
         (replicate (length s1) False, replicate (length s2) False, 0) [0..<i0] =
       (flags (length s1) (Domain M), flags (length s2) (Range M), card M)"
    by auto
  from Suc.prems have "i0 < length s1" by simp
  from match_step_inv [OF M this] f show ?case
    by auto
qed

lemma match_inv_greedy:
  "match_inv s1 s2 (length s1) M \<Longrightarrow> greedy_matching s1 s2 M"
  unfolding match_inv_def greedy_matching_def
  by (auto simp: compat_def)

lemma match_pass_greedy:
  "\<exists>M. finite M \<and> greedy_matching s1 s2 M \<and>
     match_pass s1 s2 = (flags (length s1) (Domain M), flags (length s2) (Range M), card M)"
  using match_prefix [of "length s1" s1 s2] match_inv_greedy [of s1 s2]
  unfolding match_pass_def by (auto simp: match_inv_def)

lemma greedy_matching_cards:
  assumes "finite M" and "greedy_matching s1 s2 M"
  shows "Domain M \<subseteq> {..<length s1}" and "Range M \<subseteq> {..<length s2}"
    and "card (Domain M) = card M" and "card (Range M) = card M"
proof -
  from assms(2) show "Domain M \<subseteq> {..<length s1}" and "Range M \<subseteq> {..<length s2}"
    by (auto simp: greedy_matching_def compat_def)
  have "inj_on fst M"
    using assms(2) unfolding greedy_matching_def inj_on_def by (metis prod.collapse)
  then show "card (Domain M) = card M"
    by (simp add: Domain_fst card_image)
  have "inj_on snd M"
    using assms(2) unfolding greedy_matching_def inj_on_def by (metis prod.collapse)
  then show "card (Range M) = card M"
    by (simp add: Range_snd card_image)
qed

section \<open>The transposition pass\<close>

lemma matched_0 [simp]: "matched f 0 = []"
  by (simp add: matched_def)

lemma matched_Suc:
  "matched f (Suc k) = (if f ! k then matched f k @ [k] else matched f k)"
  by (simp add: matched_def)

lemma matched_mono: "i \<le> k \<Longrightarrow> length (matched f i) \<le> length (matched f k)"
  by (induction k) (auto simp: matched_Suc le_Suc_eq)

lemma matched_strict: "i < k \<Longrightarrow> f ! i \<Longrightarrow> length (matched f i) < length (matched f k)"
  using matched_mono [of "Suc i" k f] by (simp add: matched_Suc)

lemma matched_unflagged:
  "k \<le> q \<Longrightarrow> (\<forall>j. k \<le> j \<and> j < q \<longrightarrow> \<not> f ! j) \<Longrightarrow> matched f q = matched f k"
  by (induction q) (auto simp: matched_Suc le_Suc_eq)

lemma matched_same_length:
  "k \<le> n \<Longrightarrow> length (matched f k) = length (matched f n) \<Longrightarrow> matched f k = matched f n"
proof (induction n)
  case 0
  then show ?case by simp
next
  case (Suc n)
  show ?case
  proof (cases "k = Suc n")
    case True
    then show ?thesis by simp
  next
    case False
    with Suc.prems have kn: "k \<le> n" by simp
    from matched_mono [OF kn, of f] Suc.prems(2)
    have "\<not> f ! n" and "length (matched f k) = length (matched f n)"
      by (auto simp: matched_Suc split: if_splits)
    with Suc.IH [OF kn] show ?thesis by (simp add: matched_Suc)
  qed
qed

lemma matched_flags: "matched (flags m D) k = filter (\<lambda>i. i \<in> D) [0..<k]" if "k \<le> m"
  unfolding matched_def using that by (intro filter_cong) auto

lemma length_matched_flags:
  assumes "D \<subseteq> {..<m}"
  shows "length (matched (flags m D) m) = card D"
proof -
  have "{i. i < m \<and> [0..<m] ! i \<in> D} = D"
    using assms by auto
  then show ?thesis
    by (simp add: matched_flags length_filter_conv_card)
qed

lemma length_filter_flags:
  assumes "D \<subseteq> {..<m}"
  shows "length (filter (\<lambda>b. b) (flags m D)) = card D"
proof -
  have "{i. i < m \<and> i \<in> D} = D"
    using assms by auto
  moreover have "{i. i < m \<and> flags m D ! i} = {i. i < m \<and> i \<in> D}"
    by auto
  ultimately show ?thesis
    by (simp add: length_filter_conv_card)
qed

lemma skip_unmatched_found:
  "k \<le> q \<Longrightarrow> q < length f \<Longrightarrow> f ! q \<Longrightarrow> (\<forall>j. k \<le> j \<and> j < q \<longrightarrow> \<not> f ! j) \<Longrightarrow>
     skip_unmatched f k = Some q"
proof (induction "q - k" arbitrary: k)
  case 0
  then have "k = q" by simp
  with 0 show ?case by (simp add: skip_unmatched.simps)
next
  case (Suc d)
  then have "k < q" by simp
  with Suc.prems have nk: "\<not> f ! k" by simp
  from Suc have "skip_unmatched f (Suc k) = Some q"
    by (intro Suc.hyps) auto
  with nk show ?case by (subst skip_unmatched.simps) simp
qed

lemma next_flagged:
  assumes "length (matched f k) < length (matched f n)"
  shows "\<exists>q. k \<le> q \<and> q < n \<and> f ! q \<and> (\<forall>j. k \<le> j \<and> j < q \<longrightarrow> \<not> f ! j)"
proof -
  have ex: "\<exists>q. k \<le> q \<and> q < n \<and> f ! q"
  proof (rule ccontr)
    assume "\<not> ?thesis"
    then have un: "\<forall>j. k \<le> j \<and> j < n \<longrightarrow> \<not> f ! j" by blast
    show False
    proof (cases "k \<le> n")
      case True
      from matched_unflagged [OF True un] assms show False by simp
    next
      case False
      then have "n \<le> k" by simp
      from matched_mono [OF this, of f] assms show False by simp
    qed
  qed
  define q where "q = (LEAST q. k \<le> q \<and> q < n \<and> f ! q)"
  from ex have "k \<le> q \<and> q < n \<and> f ! q"
    unfolding q_def by (rule LeastI_ex)
  moreover have "\<not> f ! j" if "k \<le> j" "j < q" for j
  proof
    assume "f ! j"
    with that \<open>k \<le> q \<and> q < n \<and> f ! q\<close> have "k \<le> j \<and> j < n \<and> f ! j" by simp
    then have "q \<le> j" unfolding q_def by (rule Least_le)
    with that show False by simp
  qed
  ultimately show ?thesis by blast
qed

lemma trans_loop_append:
  "trans_loop s1 s2 f1 f2 (xs @ ys) st =
     (case trans_loop s1 s2 f1 f2 xs st of None \<Rightarrow> None | Some st' \<Rightarrow> trans_loop s1 s2 f1 f2 ys st')"
proof (induction xs arbitrary: st)
  case Nil
  show ?case by simp
next
  case (Cons i xs)
  obtain k t where st: "st = (k, t)" by (cases st)
  show ?case
    unfolding st by (simp add: Cons.IH split: option.splits)
qed

lemma trans_prefix:
  assumes eq: "length (matched f1 m) = length (matched f2 n)" and n: "n \<le> length f2"
  shows "i \<le> m \<Longrightarrow>
     \<exists>k t. trans_loop s1 s2 f1 f2 [0..<i] (0, 0) = Some (k, t) \<and> k \<le> n \<and>
       length (matched f2 k) = length (matched f1 i) \<and>
       t = mismatches s1 s2 (matched f1 i) (matched f2 k)"
proof (induction i)
  case 0
  show ?case by (simp add: mismatches_def)
next
  case (Suc i)
  then obtain k t where run: "trans_loop s1 s2 f1 f2 [0..<i] (0, 0) = Some (k, t)"
    and kn: "k \<le> n" and len: "length (matched f2 k) = length (matched f1 i)"
    and t: "t = mismatches s1 s2 (matched f1 i) (matched f2 k)"
    by auto
  show ?case
  proof (cases "f1 ! i")
    case False
    with run kn len t show ?thesis
      by (simp add: trans_loop_append matched_Suc)
  next
    case True
    from Suc.prems have "i < m" by simp
    from matched_strict [OF this True] len eq
    have "length (matched f2 k) < length (matched f2 n)" by simp
    from next_flagged [OF this] obtain q where kq: "k \<le> q" and qn: "q < n" and fq: "f2 ! q"
      and un: "\<forall>j. k \<le> j \<and> j < q \<longrightarrow> \<not> f2 ! j"
      by blast
    from qn n have "q < length f2" by simp
    from skip_unmatched_found [OF kq this fq un] have skip: "skip_unmatched f2 k = Some q" .
    have mq: "matched f2 (Suc q) = matched f2 k @ [q]"
      using fq matched_unflagged [OF kq un] by (simp add: matched_Suc)
    have "trans_loop s1 s2 f1 f2 [0..<Suc i] (0, 0) =
        Some (Suc q, if s1 ! i \<noteq> s2 ! q then Suc t else t)"
      using run True skip by (simp add: trans_loop_append)
    moreover have "mismatches s1 s2 (matched f1 (Suc i)) (matched f2 (Suc q)) =
        (if s1 ! i \<noteq> s2 ! q then Suc t else t)"
      using True mq len t by (simp add: mismatches_def matched_Suc)
    moreover have "length (matched f2 (Suc q)) = length (matched f1 (Suc i))"
      using True mq len by (simp add: matched_Suc)
    ultimately show ?thesis
      using qn by simp
  qed
qed

text \<open>The two passes on any two strings, described by the greedy matching.\<close>

lemma passes:
  "\<exists>M k. finite M \<and> greedy_matching s1 s2 M \<and>
     match_pass s1 s2 = (flags (length s1) (Domain M), flags (length s2) (Range M), card M) \<and>
     card M \<le> length s1 \<and> card M \<le> length s2 \<and> k \<le> length s2 \<and>
     trans_pass s1 s2 (flags (length s1) (Domain M)) (flags (length s2) (Range M)) =
       Some (k, mismatches s1 s2 (matched (flags (length s1) (Domain M)) (length s1))
                                 (matched (flags (length s2) (Range M)) (length s2))) \<and>
     mismatches s1 s2 (matched (flags (length s1) (Domain M)) (length s1))
                      (matched (flags (length s2) (Range M)) (length s2)) \<le> card M"
proof -
  from match_pass_greedy [of s1 s2] obtain M where fin: "finite M" and g: "greedy_matching s1 s2 M"
    and mp: "match_pass s1 s2 = (flags (length s1) (Domain M), flags (length s2) (Range M), card M)"
    by blast
  let ?f1 = "flags (length s1) (Domain M)" and ?f2 = "flags (length s2) (Range M)"
  note c = greedy_matching_cards [OF fin g]
  have l1: "length (matched ?f1 (length s1)) = card M"
    using length_matched_flags [OF c(1)] c(3) by simp
  have l2: "length (matched ?f2 (length s2)) = card M"
    using length_matched_flags [OF c(2)] c(4) by simp
  have "card M \<le> length s1"
    using subset_eq_atLeast0_lessThan_card c(1) c(3) by (metis atLeast0LessThan)
  moreover have "card M \<le> length s2"
    using subset_eq_atLeast0_lessThan_card c(2) c(4) by (metis atLeast0LessThan)
  moreover
  from trans_prefix [of ?f1 "length s1" ?f2 "length s2" "length s1" s1 s2] l1 l2
  obtain k t where run: "trans_loop s1 s2 ?f1 ?f2 [0..<length s1] (0, 0) = Some (k, t)"
    and kn: "k \<le> length s2"
    and len: "length (matched ?f2 k) = length (matched ?f1 (length s1))"
    and t: "t = mismatches s1 s2 (matched ?f1 (length s1)) (matched ?f2 k)"
    by auto
  from matched_same_length [OF kn] len l1 l2 have "matched ?f2 k = matched ?f2 (length s2)"
    by simp
  with t have t': "t = mismatches s1 s2 (matched ?f1 (length s1)) (matched ?f2 (length s2))"
    by simp
  have "t \<le> card M"
    unfolding t' mismatches_def using l1 l2
    by (metis (no_types, lifting) length_filter_le length_zip min.idem)
  ultimately show ?thesis
    using fin g mp run kn t' unfolding trans_pass_def by blast
qed

section \<open>The score\<close>


lemma prefix_loop_commute: "prefix_loop s1 s2 i p = prefix_loop s2 s1 i p"
proof (induction s1 s2 i p rule: prefix_loop.induct)
  case (1 s1 s2 i p)
  show ?case
  proof (cases "i < min (min (length s1) (length s2)) 4 \<and> s1 ! i = s2 ! i")
    case True
    with "1.IH" have "prefix_loop s1 s2 (Suc i) (Suc p) = prefix_loop s2 s1 (Suc i) (Suc p)"
      by simp
    with True show ?thesis
      by (subst prefix_loop.simps, subst (2) prefix_loop.simps) (simp add: min.commute)
  next
    case False
    then show ?thesis
      by (subst prefix_loop.simps, subst (2) prefix_loop.simps) (auto simp: min.commute)
  qed
qed




lemma jaro_commute: "jaro m n c t = jaro n m c t"
  by (simp add: jaro_def add.commute)

lemma mismatches_commute: "mismatches s1 s2 ps qs = mismatches s2 s1 qs ps"
proof -
  have "filter (\<lambda>(p, q). s1 ! p \<noteq> s2 ! q) (zip ps qs) =
      map (\<lambda>(q, p). (p, q)) (filter (\<lambda>(q, p). s2 ! q \<noteq> s1 ! p) (zip qs ps))"
    by (subst zip_commute) (auto simp: filter_map comp_def case_prod_unfold intro: filter_cong)
  then show ?thesis
    by (simp add: mismatches_def)
qed


lemma jaroWinkler_commute: "jaroWinkler s1 s2 = jaroWinkler s2 s1"
proof -
  from passes [of s1 s2] obtain M k where fin: "finite M" and g: "greedy_matching s1 s2 M"
    and mp: "match_pass s1 s2 = (flags (length s1) (Domain M), flags (length s2) (Range M), card M)"
    and tp: "trans_pass s1 s2 (flags (length s1) (Domain M)) (flags (length s2) (Range M)) =
       Some (k, mismatches s1 s2 (matched (flags (length s1) (Domain M)) (length s1))
                                 (matched (flags (length s2) (Range M)) (length s2)))"
    by blast
  from passes [of s2 s1] obtain M' k' where fin': "finite M'" and g': "greedy_matching s2 s1 M'"
    and mp': "match_pass s2 s1 = (flags (length s2) (Domain M'), flags (length s1) (Range M'), card M')"
    and tp': "trans_pass s2 s1 (flags (length s2) (Domain M')) (flags (length s1) (Range M')) =
       Some (k', mismatches s2 s1 (matched (flags (length s2) (Domain M')) (length s2))
                                  (matched (flags (length s1) (Range M')) (length s1)))"
    by blast
  have M: "M = M'\<inverse>"
    using greedy_matching_unique [OF g greedy_matching_converse [OF g']] .
  then have D: "Domain M' = Range M" and R: "Range M' = Domain M" and c: "card M' = card M"
    by auto
  from tp' have tp'': "trans_pass s2 s1 (flags (length s2) (Range M)) (flags (length s1) (Domain M)) =
       Some (k', mismatches s1 s2 (matched (flags (length s1) (Domain M)) (length s1))
                                  (matched (flags (length s2) (Range M)) (length s2)))"
    by (simp add: D R mismatches_commute [of s2 s1])
  have mp'': "match_pass s2 s1 = (flags (length s2) (Range M), flags (length s1) (Domain M), card M)"
    using mp' by (simp add: D R c)
  show ?thesis
    by (auto simp: jaroWinkler_def mp mp'' tp tp'' Let_def jaro_commute [of "length s2"]
        prefix_loop_commute [of s2 s1])
qed

text \<open>The rounded similarity is computed as well, and it is symmetric too.\<close>

lemma jaroWinkler64_returns: "\<exists>r. jaroWinkler64 s1 s2 = Some r"
proof -
  from passes [of s1 s2] obtain M k t where
    "match_pass s1 s2 = (flags (length s1) (Domain M), flags (length s2) (Range M), card M)"
    and "trans_pass s1 s2 (flags (length s1) (Domain M)) (flags (length s2) (Range M)) =
       Some (k, t)"
    by blast
  then show ?thesis
    by (simp add: jaroWinkler64_def Let_def)
qed

lemma jaro64_commute: "jaro64 m n c t = jaro64 n m c t"
  by (simp add: jaro64_def fadd_def add.commute)

lemma jaroWinkler64_commute: "jaroWinkler64 s1 s2 = jaroWinkler64 s2 s1"
proof -
  from passes [of s1 s2] obtain M k where fin: "finite M" and g: "greedy_matching s1 s2 M"
    and mp: "match_pass s1 s2 = (flags (length s1) (Domain M), flags (length s2) (Range M), card M)"
    and tp: "trans_pass s1 s2 (flags (length s1) (Domain M)) (flags (length s2) (Range M)) =
       Some (k, mismatches s1 s2 (matched (flags (length s1) (Domain M)) (length s1))
                                 (matched (flags (length s2) (Range M)) (length s2)))"
    by blast
  from passes [of s2 s1] obtain M' k' where fin': "finite M'" and g': "greedy_matching s2 s1 M'"
    and mp': "match_pass s2 s1 = (flags (length s2) (Domain M'), flags (length s1) (Range M'), card M')"
    and tp': "trans_pass s2 s1 (flags (length s2) (Domain M')) (flags (length s1) (Range M')) =
       Some (k', mismatches s2 s1 (matched (flags (length s2) (Domain M')) (length s2))
                                  (matched (flags (length s1) (Range M')) (length s1)))"
    by blast
  have M: "M = M'\<inverse>"
    using greedy_matching_unique [OF g greedy_matching_converse [OF g']] .
  then have D: "Domain M' = Range M" and R: "Range M' = Domain M" and c: "card M' = card M"
    by auto
  from tp' have tp'': "trans_pass s2 s1 (flags (length s2) (Range M)) (flags (length s1) (Domain M)) =
       Some (k', mismatches s1 s2 (matched (flags (length s1) (Domain M)) (length s1))
                                  (matched (flags (length s2) (Range M)) (length s2)))"
    by (simp add: D R mismatches_commute [of s2 s1])
  have mp'': "match_pass s2 s1 = (flags (length s2) (Range M), flags (length s1) (Domain M), card M)"
    using mp' by (simp add: D R c)
  show ?thesis
    by (auto simp: jaroWinkler64_def mp mp'' tp tp'' Let_def jaro64_commute [of "length s2"]
        prefix_loop_commute [of s2 s1])
qed




section \<open>The similarity: termination, bounds, symmetry, identity\<close>

text \<open>
  Claim C10. Let the matching pass on \<open>s1\<close> and \<open>s2\<close> return the flag arrays
  \<open>s1Matches\<close>, \<open>s2Matches\<close> and the counter \<open>matches\<close>. Both arrays have exactly
  \<open>matches\<close> flagged positions. The transposition pass over the first \<open>i\<close> positions
  of \<open>s1\<close> returns, with \<open>k\<close> at most \<open>n\<close>; and when position \<open>i\<close> itself is
  flagged, the inner \<open>while\<close> loop started at this \<open>k\<close> stops at an index \<open>k'\<close>, not
  below \<open>k\<close> and below \<open>n\<close>, that is flagged, so \<open>s2Matches[k']\<close> and \<open>s2[k']\<close> are
  read inside the arrays. The whole pass returns, with \<open>k\<close> at most \<open>n\<close>.
\<close>

theorem transposition_pass_in_bounds:
  assumes "match_pass s1 s2 = (s1Matches, s2Matches, matches)" and "i \<le> length s1"
  shows "length (filter (\<lambda>b. b) s1Matches) = matches \<and>
         length (filter (\<lambda>b. b) s2Matches) = matches \<and>
         (\<exists>k t. trans_loop s1 s2 s1Matches s2Matches [0..<i] (0, 0) = Some (k, t) \<and>
            k \<le> length s2 \<and>
            (i < length s1 \<and> s1Matches ! i \<longrightarrow>
               (\<exists>k'. skip_unmatched s2Matches k = Some k' \<and>
                  k \<le> k' \<and> k' < length s2 \<and> s2Matches ! k'))) \<and>
         (\<exists>k t. trans_pass s1 s2 s1Matches s2Matches = Some (k, t) \<and> k \<le> length s2)"
proof -
  from match_pass_greedy [of s1 s2] assms(1) obtain M
    where fin: "finite M" and g: "greedy_matching s1 s2 M"
      and f1: "s1Matches = flags (length s1) (Domain M)"
      and f2: "s2Matches = flags (length s2) (Range M)"
      and c: "matches = card M"
    by auto
  note cd = greedy_matching_cards [OF fin g]
  have l1: "length (matched s1Matches (length s1)) = card M"
    using length_matched_flags [OF cd(1)] cd(3) f1 by simp
  have l2: "length (matched s2Matches (length s2)) = card M"
    using length_matched_flags [OF cd(2)] cd(4) f2 by simp
  have n: "length s2 \<le> length s2Matches"
    by (simp add: f2)
  from trans_prefix [of s1Matches "length s1" s2Matches "length s2" i s1 s2] l1 l2 n assms(2)
  obtain k t where run: "trans_loop s1 s2 s1Matches s2Matches [0..<i] (0, 0) = Some (k, t)"
    and kn: "k \<le> length s2"
    and len: "length (matched s2Matches k) = length (matched s1Matches i)"
    by auto
  from trans_prefix [of s1Matches "length s1" s2Matches "length s2" "length s1" s1 s2] l1 l2 n
  have whole: "\<exists>k t. trans_pass s1 s2 s1Matches s2Matches = Some (k, t) \<and> k \<le> length s2"
    unfolding trans_pass_def by auto
  have "\<exists>k'. skip_unmatched s2Matches k = Some k' \<and> k \<le> k' \<and> k' < length s2 \<and> s2Matches ! k'"
    if "i < length s1" "s1Matches ! i"
  proof -
    from matched_strict [OF that] len l1 l2
    have "length (matched s2Matches k) < length (matched s2Matches (length s2))" by simp
    from next_flagged [OF this] obtain q where kq: "k \<le> q" and qn: "q < length s2"
      and fq: "s2Matches ! q" and un: "\<forall>j. k \<le> j \<and> j < q \<longrightarrow> \<not> s2Matches ! j"
      by blast
    from qn n have "q < length s2Matches" by simp
    from skip_unmatched_found [OF kq this fq un] kq qn fq show ?thesis by simp
  qed
  moreover have "length (filter (\<lambda>b. b) s1Matches) = matches"
    using length_filter_flags [OF cd(1)] cd(3) f1 c by simp
  moreover have "length (filter (\<lambda>b. b) s2Matches) = matches"
    using length_filter_flags [OF cd(2)] cd(4) f2 c by simp
  ultimately show ?thesis
    using run kn whole by blast
qed

theorem transposition_pass_in_bounds_witness:
  "match_pass [0x61, 0x62, 0x63, 0x64] [0x61, 0x63, 0x62, 0x65] =
     ([True, True, True, False], [True, True, True, False], 3) \<and>
   (1::nat) \<le> length [0x61 :: jschar, 0x62, 0x63, 0x64] \<and>
   (\<exists>k t. trans_loop [0x61, 0x62, 0x63, 0x64] [0x61, 0x63, 0x62, 0x65]
             [True, True, True, False] [True, True, True, False] [0..<1] (0, 0) = Some (k, t) \<and>
      k \<le> length [0x61 :: jschar, 0x63, 0x62, 0x65] \<and>
      (\<exists>k'. skip_unmatched [True, True, True, False] k = Some k' \<and> k \<le> k' \<and>
         k' < length [0x61 :: jschar, 0x63, 0x62, 0x65] \<and> [True, True, True, False] ! k')) \<and>
   (\<exists>k t. trans_pass [0x61, 0x62, 0x63, 0x64] [0x61, 0x63, 0x62, 0x65]
             [True, True, True, False] [True, True, True, False] = Some (k, t) \<and>
      k \<le> length [0x61 :: jschar, 0x63, 0x62, 0x65])"
proof -
  have mp: "match_pass [0x61, 0x62, 0x63, 0x64] [0x61, 0x63, 0x62, 0x65] =
     ([True, True, True, False], [True, True, True, False], 3)"
    by (simp add: jw_eval upt_rec)
  have le: "(1::nat) \<le> length [0x61 :: jschar, 0x62, 0x63, 0x64]"
    by simp
  from transposition_pass_in_bounds [OF mp le] mp le show ?thesis
    by simp
qed


text \<open>
  Claim C5. The similarity of \<open>a\<close> and \<open>b\<close> is the similarity of \<open>b\<close> and \<open>a\<close>:
  the first-fit loop over the positions of the first argument builds the same set of
  pairs from either side.
\<close>

theorem jaroWinkler_symmetric: "jaroWinkler a b = jaroWinkler b a"
  by (rule jaroWinkler_commute)




text \<open>
  Among non-empty strings only two strings of one character each have a negative match
  window.
\<close>

lemma negative_window_lengths:
  assumes "0 < m" and "0 < n" and "matchWindow m n < 0"
  shows "m = 1 \<and> n = 1"
  using assms unfolding matchWindow_def by (auto simp: max_def split: if_splits)

text \<open>
  Claim C6, as stated, fails: there is no pair of non-empty strings with a negative
  match window and a position whose scan range has an element.
\<close>

theorem no_scan_with_negative_window:
  "\<not> (\<exists>(s1 :: jsstring) (s2 :: jsstring) i.
         s1 \<noteq> [] \<and> s2 \<noteq> [] \<and> i < length s1 \<and>
         matchWindow (length s1) (length s2) < 0 \<and>
         [window_start (matchWindow (length s1) (length s2)) i ..<
          window_end (matchWindow (length s1) (length s2)) i (length s2)] \<noteq> [])"
proof
  assume "\<exists>(s1 :: jsstring) (s2 :: jsstring) i.
         s1 \<noteq> [] \<and> s2 \<noteq> [] \<and> i < length s1 \<and>
         matchWindow (length s1) (length s2) < 0 \<and>
         [window_start (matchWindow (length s1) (length s2)) i ..<
          window_end (matchWindow (length s1) (length s2)) i (length s2)] \<noteq> []"
  then obtain s1 s2 :: jsstring and i where ne: "s1 \<noteq> []" "s2 \<noteq> []" and i: "i < length s1"
    and w: "matchWindow (length s1) (length s2) < 0"
    and r: "[window_start (matchWindow (length s1) (length s2)) i ..<
          window_end (matchWindow (length s1) (length s2)) i (length s2)] \<noteq> []"
    by blast
  from ne have "0 < length s1" and "0 < length s2"
    by simp_all
  from negative_window_lengths [OF this w] have l: "length s1 = 1" "length s2 = 1"
    by simp_all
  with i have "i = 0"
    by simp
  with l r show False
    by (simp add: matchWindow_def window_start_def window_end_def)
qed

text \<open>
  Claim C6, amended. When the match window is negative the clamped bounds permit no
  comparison: the two strings, being non-empty, have length one, the position is 0, and
  its scan range, from \<open>max(0, 0 + 1) = 1\<close> to \<open>min(0 - 1 + 1, 1) = 0\<close>, is empty.
\<close>

theorem negative_window_range_empty:
  assumes "0 < m" and "0 < n" and "matchWindow m n < 0" and "i < m"
  shows "m = 1 \<and> n = 1 \<and> i = 0 \<and>
         [window_start (matchWindow m n) i ..< window_end (matchWindow m n) i n] = []"
proof -
  from assms have mn: "m = 1 \<and> n = 1"
    unfolding matchWindow_def by (auto simp: max_def split: if_splits)
  with assms(4) have "i = 0" by simp
  with mn show ?thesis
    by (simp add: matchWindow_def window_start_def window_end_def)
qed

theorem negative_window_range_empty_witness:
  "(0::nat) < 1 \<and> matchWindow 1 1 < 0 \<and>
   [window_start (matchWindow 1 1) 0 ..< window_end (matchWindow 1 1) 0 1] = []"
  using negative_window_range_empty [of 1 1 0]
  by (simp add: matchWindow_def)

section \<open>Normalisation\<close>

lemma ws_eq_True: "isWhiteSpace c \<Longrightarrow> (\<lambda>d. isWhiteSpace d = isWhiteSpace c) = isWhiteSpace"
  by auto

lemma ws_eq_False:
  "\<not> isWhiteSpace c \<Longrightarrow> (\<lambda>d. isWhiteSpace d = isWhiteSpace c) = (\<lambda>d. \<not> isWhiteSpace d)"
  by auto

lemma drop_leading_runs: "drop_leading_ws (runs t) = runs (dropWhile isWhiteSpace t)"
  by (cases t) (simp_all add: drop_leading_ws_def ws_eq_True)

lemma replace_ws_nonspace:
  "\<forall>x\<in>set xs. \<not> isWhiteSpace x \<Longrightarrow> replace_ws (xs @ ys) = xs @ replace_ws ys"
  by (induction xs) simp_all

lemma squash_runs: "concat (map squash (runs t)) = replace_ws t"
proof (induction t rule: runs.induct)
  case 1
  show ?case by simp
next
  case (2 c cs)
  show ?case
  proof (cases "isWhiteSpace c")
    case True
    with 2 show ?thesis
      by (simp add: squash_def ws_eq_True)
  next
    case False
    let ?P = "\<lambda>d. \<not> isWhiteSpace d"
    have "replace_ws (c # cs) = replace_ws ((c # takeWhile ?P cs) @ dropWhile ?P cs)"
      by simp
    also have "\<dots> = (c # takeWhile ?P cs) @ replace_ws (dropWhile ?P cs)"
      using False by (intro replace_ws_nonspace) (auto dest: set_takeWhileD)
    finally show ?thesis
      using 2 False by (simp add: squash_def ws_eq_False)
  qed
qed

lemma runs_single:
  assumes "\<forall>x\<in>set cs. isWhiteSpace x = isWhiteSpace c"
  shows "runs (c # cs) = [c # cs]"
proof -
  from assms have "takeWhile (\<lambda>d. isWhiteSpace d = isWhiteSpace c) cs = cs"
    and "dropWhile (\<lambda>d. isWhiteSpace d = isWhiteSpace c) cs = []"
    by simp_all
  then show ?thesis
    by (simp only: runs.simps)
qed

lemma runs_append:
  "ys \<noteq> [] \<Longrightarrow> zs \<noteq> [] \<Longrightarrow> isWhiteSpace (last ys) \<noteq> isWhiteSpace (hd zs) \<Longrightarrow>
     runs (ys @ zs) = runs ys @ runs zs"
proof (induction ys rule: runs.induct)
  case 1
  then show ?case by simp
next
  case (2 c cs)
  let ?P = "\<lambda>d. isWhiteSpace d = isWhiteSpace c"
  obtain z zs' where zs: "zs = z # zs'"
    using "2.prems"(2) by (cases zs) auto
  show ?case
  proof (cases "\<forall>x\<in>set cs. ?P x")
    case True
    then have "?P (last (c # cs))"
      by (cases "cs = []") auto
    with "2.prems"(3) zs have nz: "\<not> ?P z" by auto
    from True nz have tk2: "takeWhile ?P (cs @ zs) = cs" and dr2: "dropWhile ?P (cs @ zs) = zs"
      by (simp_all add: zs)
    have "runs ((c # cs) @ zs) = (c # cs) # runs zs"
      by (subst append_Cons, subst runs.simps, subst tk2, subst dr2) (rule refl)
    also have "\<dots> = runs (c # cs) @ runs zs"
      unfolding runs_single [OF True] by (simp only: append_Cons append_Nil)
    finally show ?thesis .
  next
    case False
    then obtain x where x: "x \<in> set cs" "\<not> ?P x" by blast
    have tk: "takeWhile ?P (cs @ zs) = takeWhile ?P cs"
      using x by (rule takeWhile_append1)
    have dr: "dropWhile ?P (cs @ zs) = dropWhile ?P cs @ zs"
      using x by (rule dropWhile_append1)
    from x have ne: "dropWhile ?P cs \<noteq> []"
      unfolding dropWhile_eq_Nil_conv by blast
    then have cs: "cs \<noteq> []" by auto
    have "last (takeWhile ?P cs @ dropWhile ?P cs) = last (dropWhile ?P cs)"
      using ne by (rule last_appendR)
    then have "last (dropWhile ?P cs) = last cs"
      by simp
    with "2.prems"(3) cs have "isWhiteSpace (last (dropWhile ?P cs)) \<noteq> isWhiteSpace (hd zs)"
      by simp
    from "2.IH" [OF ne "2.prems"(2) this] tk dr show ?thesis
      by simp
  qed
qed

lemma runs_last:
  "t \<noteq> [] \<Longrightarrow> runs t \<noteq> [] \<and> last (runs t) \<noteq> [] \<and>
     isWhiteSpace (hd (last (runs t))) = isWhiteSpace (last t)"
proof (induction t rule: runs.induct)
  case 1
  then show ?case by simp
next
  case (2 c cs)
  let ?P = "\<lambda>d. isWhiteSpace d = isWhiteSpace c"
  show ?case
  proof (cases "dropWhile ?P cs = []")
    case True
    then have all: "\<forall>x\<in>set cs. ?P x"
      by simp
    then have "?P (last (c # cs))"
      by (cases "cs = []") auto
    with runs_single [OF all] show ?thesis by simp
  next
    case False
    then have cs: "cs \<noteq> []" by auto
    have "last (takeWhile ?P cs @ dropWhile ?P cs) = last (dropWhile ?P cs)"
      using False by (rule last_appendR)
    then have "last (dropWhile ?P cs) = last cs"
      by simp
    with "2.IH" [OF False] False cs show ?thesis
      by simp
  qed
qed

lemma drop_trailing_runs:
  "drop_trailing_ws (runs t) = runs (rev (dropWhile isWhiteSpace (rev t)))"
proof -
  define ys where "ys = rev (dropWhile isWhiteSpace (rev t))"
  define zs where "zs = rev (takeWhile isWhiteSpace (rev t))"
  have t: "t = ys @ zs"
  proof -
    have "ys @ zs = rev (takeWhile isWhiteSpace (rev t) @ dropWhile isWhiteSpace (rev t))"
      unfolding ys_def zs_def by (simp only: rev_append)
    then show ?thesis by simp
  qed
  have zs_ws: "\<forall>x\<in>set zs. isWhiteSpace x"
    unfolding zs_def by (auto dest: set_takeWhileD)
  have ys_last: "\<not> isWhiteSpace (last ys)" if "ys \<noteq> []"
  proof -
    from that have "dropWhile isWhiteSpace (rev t) \<noteq> []" by (simp add: ys_def)
    then have "\<not> isWhiteSpace (hd (dropWhile isWhiteSpace (rev t)))"
      by (rule hd_dropWhile)
    then show ?thesis
      using that by (simp add: ys_def last_rev)
  qed
  have "drop_trailing_ws (runs t) = runs ys"
  proof (cases "zs = []")
    case True
    with t have ty: "t = ys" by simp
    show ?thesis
    proof (cases "ys = []")
      case True
      with ty show ?thesis by (simp add: drop_trailing_ws_def)
    next
      case False
      from runs_last [OF False] ys_last [OF False] show ?thesis
        unfolding ty by (simp add: drop_trailing_ws_def)
    qed
  next
    case False
    then obtain z zs' where zs: "zs = z # zs'" by (cases zs) auto
    with zs_ws have rz: "runs zs = [zs]" using runs_single [of zs' z] by simp
    show ?thesis
    proof (cases "ys = []")
      case True
      with rz zs zs_ws show ?thesis
        unfolding t by (simp add: drop_trailing_ws_def)
    next
      case ne: False
      from ys_last [OF ne] zs zs_ws have "isWhiteSpace (last ys) \<noteq> isWhiteSpace (hd zs)"
        by simp
      from runs_append [OF ne False this] rz zs zs_ws show ?thesis
        unfolding t by (simp add: drop_trailing_ws_def)
    qed
  qed
  then show ?thesis
    by (simp add: ys_def)
qed

lemma normalize_refines: "normalize t = normalize_spec t"
  by (simp add: normalize_def normalize_spec_def trim_def drop_leading_runs drop_trailing_runs
      squash_runs)

lemma replace_ws_keeps:
  "filter (\<lambda>c. \<not> isWhiteSpace c) (replace_ws t) = filter (\<lambda>c. \<not> isWhiteSpace c) t"
proof (induction t rule: replace_ws.induct)
  case 1
  show ?case by simp
next
  case (2 c cs)
  have sp: "isWhiteSpace space"
    by (simp add: isWhiteSpace_def space_def)
  have "filter (\<lambda>c. \<not> isWhiteSpace c) cs =
      filter (\<lambda>c. \<not> isWhiteSpace c) (takeWhile isWhiteSpace cs @ dropWhile isWhiteSpace cs)"
    by simp
  also have "\<dots> = filter (\<lambda>c. \<not> isWhiteSpace c) (dropWhile isWhiteSpace cs)"
    unfolding filter_append by (simp add: filter_empty_conv) (auto dest: set_takeWhileD)
  finally show ?case
    using 2 sp by simp
qed

lemma trim_keeps:
  "filter (\<lambda>c. \<not> isWhiteSpace c) (trim t) = filter (\<lambda>c. \<not> isWhiteSpace c) t"
proof -
  have d: "filter (\<lambda>c. \<not> isWhiteSpace c) (dropWhile isWhiteSpace s) =
      filter (\<lambda>c. \<not> isWhiteSpace c) s" for s
  proof -
    have "filter (\<lambda>c. \<not> isWhiteSpace c) s =
      filter (\<lambda>c. \<not> isWhiteSpace c) (takeWhile isWhiteSpace s @ dropWhile isWhiteSpace s)"
      by simp
    also have "\<dots> = filter (\<lambda>c. \<not> isWhiteSpace c) (dropWhile isWhiteSpace s)"
      unfolding filter_append by (simp add: filter_empty_conv) (auto dest: set_takeWhileD)
    finally show ?thesis by simp
  qed
  show ?thesis
    by (simp add: trim_def d flip: rev_filter)
qed

text \<open>
  Claim C9. For every string, \<open>normalize\<close> returns the text with a leading and a
  trailing run of whitespace removed and every other maximal run of whitespace
  characters replaced by one space character, the runs of other characters being kept
  as they are; in particular the characters that are not whitespace come out unchanged,
  case included, and in the same order. The function is a function of its argument
  alone.
\<close>

theorem normalize_correct:
  "normalize t = normalize_spec t \<and>
   filter (\<lambda>c. \<not> isWhiteSpace c) (normalize t) = filter (\<lambda>c. \<not> isWhiteSpace c) t"
proof
  show "normalize t = normalize_spec t"
    by (rule normalize_refines)
  show "filter (\<lambda>c. \<not> isWhiteSpace c) (normalize t) = filter (\<lambda>c. \<not> isWhiteSpace c) t"
    by (simp add: normalize_def replace_ws_keeps trim_keeps)
qed

section \<open>The handler: fast path, missing input, threshold field\<close>

text \<open>
  Claim C2. A POST request whose two answers are non-empty strings with equal
  normalised, lower-cased forms is answered on the fast path: \<open>isCorrect = true\<close>,
  \<open>confidence = 1.0\<close>, the four scores \<open>exact\<close>, \<open>semantic\<close>, \<open>jaroWinkler\<close> and
  \<open>combined\<close> all \<open>1.0\<close>, and the server state, with its log of provider calls, is
  returned unchanged: no pipeline is loaded and no embedding is requested.
\<close>

theorem exact_match_short_circuit:
  assumes "req_method req = POST" and "req_body req = Some b"
    and "userAnswer b = Some u" and "correctAnswer b = Some c"
    and "u \<noteq> []" and "c \<noteq> []"
    and "toLowerCase e (normalize u) = toLowerCase e (normalize c)"
  shows "handler e req st =
           (Json200 \<lparr>isCorrect = True, confidence = 1,
                     scores = \<lparr>exact = Some 1, semantic = 1, jaroWinklerScore = 1,
                               combined = 1\<rparr>,
                     threshold = None\<rparr>, st)"
  using assms by (simp add: handler_def compare_def)

text \<open>The instance \<open>"Pa"\<close> against \<open>"pa"\<close>, with a threshold above every score.\<close>

theorem exact_match_short_circuit_witness:
  "handler (stub_env 0)
     \<lparr>req_method = POST,
      req_body = Some \<lparr>userAnswer = Some [0x50, 0x61], correctAnswer = Some [0x70, 0x61],
                       body_threshold = Some 2\<rparr>\<rparr> cold_server =
   (Json200 \<lparr>isCorrect = True, confidence = 1,
             scores = \<lparr>exact = Some 1, semantic = 1, jaroWinklerScore = 1, combined = 1\<rparr>,
             threshold = None\<rparr>, cold_server)"
  by (rule exact_match_short_circuit
        [where u = "[0x50, 0x61]" and c = "[0x70, 0x61]"
           and b = "\<lparr>userAnswer = Some [0x50, 0x61], correctAnswer = Some [0x70, 0x61],
                     body_threshold = Some 2\<rparr>"])
     (simp_all add: stub_env_def ascii_lower_def normalize_def trim_def isWhiteSpace_def)

text \<open>
  Claim C7, as stated, fails: the guard \<open>!userAnswer || !correctAnswer\<close> looks at the
  raw body fields, before any trimming. The answer \<open>" "\<close> is empty after trimming and
  yet passes the guard: against \<open>"x"\<close> the pipeline is loaded, the model is called on
  the pair \<open>("", "x")\<close>, and a scored decision is returned.
\<close>

theorem whitespace_only_answer_is_scored:
  "trim [0x20] = [] \<and>
   handler (stub_env 0)
     \<lparr>req_method = POST,
      req_body = Some \<lparr>userAnswer = Some [0x20], correctAnswer = Some [0x78],
                       body_threshold = None\<rparr>\<rparr> cold_server =
   (Json200 \<lparr>isCorrect = False, confidence = 0,
             scores = \<lparr>exact = None, semantic = 0, jaroWinklerScore = 0, combined = 0\<rparr>,
             threshold = Some 0.75\<rparr>,
    \<lparr>extractor = True, provider_calls = [LoadPipeline, Embed [] [0x78]]\<rparr>)"
proof -
  have jw: "jaroWinkler64 [] [0x78] = Some 0"
    by (simp add: jaroWinkler64_def)
  have ar: "fadd (fmul 0 x) (fmul 0 y) = 0" for x y
    by (simp add: fadd_def fmul_def round64_def)
  show ?thesis
    by (simp add: handler_eval jw ar Let_def)
qed

text \<open>
  Claim C7, amended. A POST request that carries a body in which \<open>userAnswer\<close> or
  \<open>correctAnswer\<close> is absent or is the empty string is rejected with status 400, and
  the server state, with its log of provider calls, is returned unchanged: nothing is
  scored.
\<close>

theorem missing_input_rejected:
  assumes "req_method req = POST" and "req_body req = Some b"
    and "falsy (userAnswer b) \<or> falsy (correctAnswer b)"
  shows "handler e req st = (Error400, st)"
  using assms by (simp add: handler_def compare_def)

theorem missing_input_rejected_witness:
  "handler (stub_env 0)
     \<lparr>req_method = POST,
      req_body = Some \<lparr>userAnswer = None, correctAnswer = Some [0x78],
                       body_threshold = None\<rparr>\<rparr> cold_server = (Error400, cold_server)"
  by (rule missing_input_rejected
        [where b = "\<lparr>userAnswer = None, correctAnswer = Some [0x78], body_threshold = None\<rparr>"])
     simp_all

text \<open>
  A POST request without a body does not reach the guard: the destructuring throws, and
  the answer is the internal error, again with nothing scored.
\<close>

lemma no_body_internal_error:
  assumes "req_method req = POST" and "req_body req = None"
  shows "handler e req st = (Error500, st)"
  using assms by (simp add: handler_def)

text \<open>
  Claim C8, as stated, fails: the object returned on the fast path has the fields
  \<open>isCorrect\<close>, \<open>confidence\<close> and \<open>scores\<close> only, whatever threshold the request
  carries.
\<close>

theorem fast_path_has_no_threshold:
  "fst (handler (stub_env 0)
     \<lparr>req_method = POST,
      req_body = Some \<lparr>userAnswer = Some [0x61], correctAnswer = Some [0x61],
                       body_threshold = Some 0.5\<rparr>\<rparr> cold_server) =
   Json200 \<lparr>isCorrect = True, confidence = 1,
            scores = \<lparr>exact = Some 1, semantic = 1, jaroWinklerScore = 1, combined = 1\<rparr>,
            threshold = None\<rparr>"
  by (simp add: handler_def compare_def stub_env_def ascii_lower_def normalize_def trim_def
      isWhiteSpace_def)

text \<open>The \<open>threshold\<close> field of a decision returned by the \<open>try\<close> block.\<close>

lemma compare_threshold:
  assumes "compare e ua ca th st = (Json200 d, st')"
  shows "threshold d =
           (if toLowerCase e (normalize (the ua)) = toLowerCase e (normalize (the ca))
            then None
            else Some (case th of None \<Rightarrow> 0.75 | Some t \<Rightarrow> t))"
  using assms
  by (auto simp: compare_def Let_def getExtractor_def call_model_def
      split: if_splits option.splits prod.splits bool.splits)

text \<open>
  Claim C8, amended. Every decision returned on the combined-scoring path carries a
  \<open>threshold\<close> field, holding the threshold of the request or \<open>0.75\<close> when the request
  has none; the decision returned on the fast path carries no \<open>threshold\<close> field.
\<close>

theorem threshold_field:
  assumes "req_method req = POST" and "handler e req st = (Json200 d, st')"
  shows "\<exists>b. req_body req = Some b \<and>
           threshold d =
             (if toLowerCase e (normalize (the (userAnswer b))) =
                 toLowerCase e (normalize (the (correctAnswer b)))
              then None
              else Some (case body_threshold b of None \<Rightarrow> 0.75 | Some t \<Rightarrow> t))"
proof (cases "req_body req")
  case None
  with assms show ?thesis
    by (simp add: handler_def)
next
  case (Some b)
  with assms have "compare e (userAnswer b) (correctAnswer b) (body_threshold b) st =
      (Json200 d, st')"
    by (simp add: handler_def)
  from compare_threshold [OF this] Some show ?thesis
    by simp
qed

text \<open>
  The instance \<open>"a"\<close> against \<open>"b"\<close> with semantic score \<open>0.5\<close> and no threshold in the
  request: the similarity is 0 and the combined score is \<open>0.5\<close> times the binary64
  value of \<open>0.8\<close>.
\<close>

theorem threshold_field_witness:
  "handler (stub_env 0.5)
     \<lparr>req_method = POST,
      req_body = Some \<lparr>userAnswer = Some [0x61], correctAnswer = Some [0x62],
                       body_threshold = None\<rparr>\<rparr> cold_server =
   (Json200 \<lparr>isCorrect = False, confidence = 3602879701896397 / 9007199254740992,
             scores = \<lparr>exact = None, semantic = 0.5, jaroWinklerScore = 0,
                       combined = 3602879701896397 / 9007199254740992\<rparr>,
             threshold = Some 0.75\<rparr>,
    \<lparr>extractor = True, provider_calls = [LoadPipeline, Embed [0x61] [0x62]]\<rparr>) \<and>
   (\<exists>b. Some \<lparr>userAnswer = Some [0x61 :: jschar], correctAnswer = Some [0x62 :: jschar],
               body_threshold = None\<rparr> = Some b \<and>
        Some (0.75 :: real) = Some (case body_threshold b of None \<Rightarrow> 0.75 | Some t \<Rightarrow> t))"
proof -
  let ?req = "\<lparr>req_method = POST,
      req_body = Some \<lparr>userAnswer = Some [0x61], correctAnswer = Some [0x62],
                       body_threshold = None\<rparr>\<rparr>"
  let ?d = "\<lparr>isCorrect = False, confidence = 3602879701896397 / 9007199254740992,
             scores = \<lparr>exact = None, semantic = 0.5, jaroWinklerScore = 0,
                       combined = 3602879701896397 / 9007199254740992\<rparr>,
             threshold = Some 0.75\<rparr>"
  have m: "req_method ?req = POST"
    by simp
  have jw: "jaroWinkler64 [0x61] [0x62] = Some 0"
    by (simp add: jw64_eval)
  have ar: "fadd (fmul (1 / 2) (round64 (4 / 5))) (fmul 0 (round64 (1 / 5))) =
      3602879701896397 / 9007199254740992"
    by (simp add: fadd_def fmul_def round64_eval)
  have h: "handler (stub_env 0.5) ?req cold_server =
      (Json200 ?d, \<lparr>extractor = True, provider_calls = [LoadPipeline, Embed [0x61] [0x62]]\<rparr>)"
    by (simp add: handler_eval jw ar Let_def)
  from threshold_field [OF m h] h show ?thesis
    by (simp add: stub_env_def ascii_lower_def normalize_def trim_def isWhiteSpace_def)
qed

section \<open>The handler: the combined score\<close>

text \<open>
  Claim C1. A POST request whose two answers pass the guard and do not take the fast
  path, served by a provider that loads and answers with the semantic score \<open>sem\<close>,
  is answered with a decision in which \<open>combined\<close> is
  \<open>semantic * 0.8 + jaroWinkler * 0.2\<close>, computed as the source computes it, each
  literal and each operation rounded to binary64; \<open>confidence\<close> is \<open>combined\<close>, and
  \<open>isCorrect\<close> is true exactly when \<open>combined \<ge> threshold\<close> (0.75 when the request has
  none).
\<close>

theorem combined_score:
  assumes "req_method req = POST" and "req_body req = Some b"
    and "userAnswer b = Some u" and "correctAnswer b = Some c"
    and "u \<noteq> []" and "c \<noteq> []"
    and "toLowerCase e (normalize u) \<noteq> toLowerCase e (normalize c)"
    and "extractor st \<or> pipeline_loads e"
    and "embed_cos_sim e (normalize u) (normalize c) = Some sem"
  shows "\<exists>jw d st'.
           jaroWinkler64 (toLowerCase e (normalize u)) (toLowerCase e (normalize c)) = Some jw \<and>
           handler e req st = (Json200 d, st') \<and>
           semantic (scores d) = sem \<and> jaroWinklerScore (scores d) = jw \<and>
           combined (scores d) = fadd (fmul sem (round64 0.8)) (fmul jw (round64 0.2)) \<and>
           confidence d = combined (scores d) \<and>
           isCorrect d =
             (combined (scores d) \<ge> (case body_threshold b of None \<Rightarrow> 0.75 | Some t \<Rightarrow> t))"
proof -
  from jaroWinkler64_returns
  obtain jw where jw: "jaroWinkler64 (toLowerCase e (normalize u)) (toLowerCase e (normalize c)) = Some jw"
    by blast
  show ?thesis
  proof (cases "extractor st")
    case True
    with assms jw show ?thesis
      by (simp add: handler_def compare_def getExtractor_def call_model_def Let_def)
  next
    case False
    with assms jw show ?thesis
      by (simp add: handler_def compare_def getExtractor_def call_model_def Let_def)
  qed
qed

text \<open>
  The instance at the boundary. The semantic score is the binary64 value of \<open>0.9\<close>,
  the similarity of \<open>"a"\<close> and \<open>"b"\<close> is 0, and the threshold is the binary64 value
  written \<open>0.7200000000000001\<close>. The product of the binary64 values of \<open>0.9\<close> and \<open>0.8\<close>
  rounds to that same value: the combined score equals the threshold, and the answer is
  accepted.
\<close>

theorem combined_score_witness:
  "(\<exists>jw d st'.
      jaroWinkler64 (toLowerCase (stub_env (8106479329266893 / 9007199254740992)) (normalize [0x61]))
                    (toLowerCase (stub_env (8106479329266893 / 9007199254740992)) (normalize [0x62])) =
        Some jw \<and>
      handler (stub_env (8106479329266893 / 9007199254740992))
        \<lparr>req_method = POST,
         req_body = Some \<lparr>userAnswer = Some [0x61], correctAnswer = Some [0x62],
                          body_threshold = Some (6485183463413515 / 9007199254740992)\<rparr>\<rparr>
        cold_server = (Json200 d, st') \<and>
      semantic (scores d) = 8106479329266893 / 9007199254740992 \<and>
      jaroWinklerScore (scores d) = jw \<and>
      combined (scores d) =
        fadd (fmul (8106479329266893 / 9007199254740992) (round64 0.8)) (fmul jw (round64 0.2)) \<and>
      confidence d = combined (scores d) \<and>
      isCorrect d = (combined (scores d) \<ge> 6485183463413515 / 9007199254740992)) \<and>
   fst (handler (stub_env (8106479329266893 / 9007199254740992))
        \<lparr>req_method = POST,
         req_body = Some \<lparr>userAnswer = Some [0x61], correctAnswer = Some [0x62],
                          body_threshold = Some (6485183463413515 / 9007199254740992)\<rparr>\<rparr>
        cold_server) =
   Json200 \<lparr>isCorrect = True, confidence = 6485183463413515 / 9007199254740992,
            scores = \<lparr>exact = None, semantic = 8106479329266893 / 9007199254740992,
                      jaroWinklerScore = 0,
                      combined = 6485183463413515 / 9007199254740992\<rparr>,
            threshold = Some (6485183463413515 / 9007199254740992)\<rparr>"
proof -
  let ?b = "\<lparr>userAnswer = Some [0x61], correctAnswer = Some [0x62],
             body_threshold = Some (6485183463413515 / 9007199254740992)\<rparr>"
  let ?req = "\<lparr>req_method = POST, req_body = Some ?b\<rparr>"
  have jw: "jaroWinkler64 [0x61] [0x62] = Some 0"
    by (simp add: jw64_eval)
  have ar: "fadd (fmul (8106479329266893 / 9007199254740992) (round64 (4 / 5)))
                 (fmul 0 (round64 (1 / 5))) = 6485183463413515 / 9007199254740992"
    by (simp add: fadd_def fmul_def round64_eval)
  have "fst (handler (stub_env (8106479329266893 / 9007199254740992)) ?req cold_server) =
   Json200 \<lparr>isCorrect = True, confidence = 6485183463413515 / 9007199254740992,
            scores = \<lparr>exact = None, semantic = 8106479329266893 / 9007199254740992,
                      jaroWinklerScore = 0,
                      combined = 6485183463413515 / 9007199254740992\<rparr>,
            threshold = Some (6485183463413515 / 9007199254740992)\<rparr>"
    by (simp add: handler_eval jw ar Let_def)
  with combined_score [of ?req ?b "[0x61]" "[0x62]"
         "stub_env (8106479329266893 / 9007199254740992)" cold_server
         "8106479329266893 / 9007199254740992"]
  show ?thesis
    by (simp add: stub_env_def ascii_lower_def normalize_def trim_def isWhiteSpace_def
        cold_server_def jw ar)
qed

end
